theory Spec2Isabelle
  imports Main
begin

section \<open>OnceOK: a cancelable, de-duplicating, memoizing executor\<close>

text \<open>
  The Go source (syncutil.go) consists of three kinds of goroutines that talk over
  unbuffered channels: the callers of \<open>Do\<close>, the coordinator \<open>loop\<close> and the attempt
  runner spawned by \<open>loop\<close>.  The embedding is an interleaving transition system:
  every select case, every rendezvous on a channel and every step of the runner is an
  event, and \<open>step\<close> says whether the event is enabled and what state it leads to.
  A schedule is a list of events.
\<close>

subsection \<open>Data\<close>

text \<open>\<open>interface{}\<close> values: \<open>None\<close> is \<open>nil\<close>.\<close>
type_synonym val = "nat option"

text \<open>A non-nil \<open>error\<close> value; \<open>err option\<close> is an \<open>error\<close> that may be \<open>nil\<close>.\<close>
type_synonym err = nat

text \<open>
  One invocation of \<open>Do\<close>.  Each invocation makes its own channel
  \<open>errc := make(chan error)\<close>, so the invocation and its private channel share the
  identifier.
\<close>
type_synonym cid = nat

type_synonym ctxid = nat

text \<open>
  The argument \<open>fn func() (interface{}, error)\<close>, by what a call of it does: it returns
  a pair, or it panics.
\<close>
datatype action = Returns val "err option" | Panics

text \<open>Control points of \<open>Do\<close> (lines 41-77).\<close>
datatype pc =
    NotCalled
  | FastPath                    \<comment> \<open>before the first select (line 42)\<close>
  | LazyInit                    \<comment> \<open>before \<open>o.once.Do(o.lazyInit)\<close> (line 48)\<close>
  | Register                    \<comment> \<open>blocked in the select of line 51\<close>
  | Await                       \<comment> \<open>blocked in the select of line 60\<close>
  | Unregister                  \<comment> \<open>blocked in the select of line 69\<close>
  | Returned val "err option"   \<comment> \<open>\<open>Do\<close> has returned this pair\<close>

text \<open>Control points of \<open>loop\<close> (lines 86-119).\<close>
datatype loop_pc =
    NotStarted
  | Select                      \<comment> \<open>blocked in the select of line 91\<close>
  | Range err                   \<comment> \<open>at the head of \<open>for c := range pend\<close> (line 95)\<close>
  | Send err cid                \<comment> \<open>blocked in \<open>c <- err\<close> (line 97)\<close>
  | Exited                      \<comment> \<open>returned (line 102)\<close>

text \<open>Control points of the goroutine of lines 110-114.\<close>
datatype runner_pc =
    Spawned                     \<comment> \<open>created by \<open>go\<close>, \<open>fn\<close> not yet called\<close>
  | InFn                        \<comment> \<open>inside \<open>opv.fn()\<close>\<close>
  | Sending "err option"        \<comment> \<open>blocked in \<open>errc <- err\<close> (line 113)\<close>

record state =
  o_once :: bool                        \<comment> \<open>\<open>o.once\<close> has run\<close>
  o_done :: bool                        \<comment> \<open>\<open>o.done\<close> is closed\<close>
  o_val :: val                          \<comment> \<open>\<open>o.val\<close>\<close>
  loop :: loop_pc
  pend :: "cid set"                     \<comment> \<open>keys of the map \<open>pend\<close> of \<open>loop\<close>\<close>
  busy :: bool
  runners :: "(cid \<times> runner_pc) list"  \<comment> \<open>live runner goroutines, by the caller whose op spawned them\<close>
  cpc :: "cid \<Rightarrow> pc"
  cctx :: "cid \<Rightarrow> ctxid"                \<comment> \<open>the \<open>ctx\<close> argument of each call\<close>
  cfn :: "cid \<Rightarrow> action"               \<comment> \<open>the \<open>fn\<close> argument of each call\<close>
  ctx_err :: "ctxid \<Rightarrow> err option"      \<comment> \<open>\<open>ctx.Err()\<close>; \<open>Some\<close> once \<open>ctx.Done()\<close> is closed\<close>
  crashed :: bool                       \<comment> \<open>an unrecovered panic has ended the program\<close>
  loops :: nat                          \<comment> \<open>history: how often \<open>go o.loop()\<close> ran\<close>
  spawned :: "cid list"                 \<comment> \<open>history: whose op made line 110 spawn a runner, in order\<close>
  invoked :: "cid list"                 \<comment> \<open>history: whose \<open>fn\<close> was called, in order\<close>

text \<open>\<open>new(OnceOK)\<close>: the zero value; \<open>o.done\<close> and \<open>o.opc\<close> are nil channels.\<close>
definition init :: state where
  "init = \<lparr> o_once = False, o_done = False, o_val = None, loop = NotStarted, pend = {},
            busy = False, runners = [], cpc = (\<lambda>_. NotCalled), cctx = (\<lambda>_. 0),
            cfn = (\<lambda>_. Panics), ctx_err = (\<lambda>_. None), crashed = False,
            loops = 0, spawned = [], invoked = [] \<rparr>"

subsection \<open>The events\<close>

datatype event =
    Call cid ctxid action   \<comment> \<open>a goroutine calls \<open>o.Do(ctx, fn)\<close>\<close>
  | Cancel ctxid err        \<comment> \<open>a context is cancelled; its \<open>Err()\<close> becomes the given error\<close>
  | Fast cid                \<comment> \<open>the select of line 42\<close>
  | OnceDo cid              \<comment> \<open>line 48\<close>
  | RegDone cid             \<comment> \<open>line 52\<close>
  | RegCtx cid              \<comment> \<open>line 54\<close>
  | RegJoin cid             \<comment> \<open>line 56 meets line 103\<close>
  | AwaitDone cid           \<comment> \<open>line 61\<close>
  | AwaitErr cid            \<comment> \<open>line 63 meets line 97\<close>
  | AwaitCtx cid            \<comment> \<open>line 65\<close>
  | UnregDone cid           \<comment> \<open>line 70\<close>
  | UnregErr cid            \<comment> \<open>line 72 meets line 97\<close>
  | UnregLeave cid          \<comment> \<open>line 74 meets line 103\<close>
  | RangeNext cid           \<comment> \<open>lines 95-96: the next key of \<open>pend\<close>\<close>
  | FnStart cid             \<comment> \<open>line 112, the call\<close>
  | FnReturn cid            \<comment> \<open>line 112, the return and the assignment\<close>
  | LoopRecv cid            \<comment> \<open>line 113 meets line 92\<close>

subsection \<open>The goroutines\<close>

definition ret :: "cid \<Rightarrow> val \<Rightarrow> err option \<Rightarrow> state \<Rightarrow> state" where
  "ret c v e s = s\<lparr>cpc := (cpc s)(c := Returned v e)\<rparr>"

definition goto :: "cid \<Rightarrow> pc \<Rightarrow> state \<Rightarrow> state" where
  "goto c p s = s\<lparr>cpc := (cpc s)(c := p)\<rparr>"

definition runner_of :: "state \<Rightarrow> cid \<Rightarrow> runner_pc option" where
  "runner_of s c = map_of (runners s) c"

definition set_runner :: "cid \<Rightarrow> runner_pc \<Rightarrow> state \<Rightarrow> state" where
  "set_runner c r s = s\<lparr>runners := map (\<lambda>(k, q). if k = c then (k, r) else (k, q)) (runners s)\<rparr>"

definition del_runner :: "cid \<Rightarrow> state \<Rightarrow> state" where
  "del_runner c s = s\<lparr>runners := filter (\<lambda>(k, q). k \<noteq> c) (runners s)\<rparr>"

text \<open>Lines 79-83.\<close>
definition lazyInit :: "state \<Rightarrow> state" where
  "lazyInit s = s\<lparr>o_done := False, loop := Select, pend := {}, busy := False,
                   loops := Suc (loops s)\<rparr>"

text \<open>\<open>o.once.Do(o.lazyInit)\<close>: \<open>sync.Once\<close> runs its argument on the first call only.\<close>
definition once_Do :: "state \<Rightarrow> state" where
  "once_Do s = (if o_once s then s else lazyInit (s\<lparr>o_once := True\<rparr>))"

text \<open>Lines 104-107: \<open>loop\<close> has received \<open>op{false, errc, fn}\<close>.\<close>
definition loop_leave :: "cid \<Rightarrow> state \<Rightarrow> state" where
  "loop_leave c s = s\<lparr>pend := pend s - {c}\<rparr>"

text \<open>Lines 108-116: \<open>loop\<close> has received \<open>op{true, errc, fn}\<close>.\<close>
definition loop_join :: "cid \<Rightarrow> state \<Rightarrow> state" where
  "loop_join c s =
     (let s1 = (if \<not> busy s
                then s\<lparr>busy := True, runners := runners s @ [(c, Spawned)],
                       spawned := spawned s @ [c]\<rparr>
                else s)
      in s1\<lparr>pend := insert c (pend s1)\<rparr>)"

text \<open>
  The head of the range loop of line 95: with no key left the loop body is over and
  \<open>continue\<close> leads back to the select.
\<close>
definition range_head :: "err \<Rightarrow> state \<Rightarrow> state" where
  "range_head x s = (if pend s = {} then s\<lparr>loop := Select\<rparr> else s\<lparr>loop := Range x\<rparr>)"

text \<open>Lines 92-102: \<open>loop\<close> has received \<open>err\<close> from its runner.\<close>
definition loop_completed :: "err option \<Rightarrow> state \<Rightarrow> state" where
  "loop_completed e s =
     (case e of
        Some x \<Rightarrow> range_head x (s\<lparr>busy := False\<rparr>)
      | None \<Rightarrow> s\<lparr>o_done := True, loop := Exited\<rparr>)"

subsection \<open>The step function\<close>

fun step1 :: "event \<Rightarrow> state \<Rightarrow> state option" where
  "step1 (Call c k f) s =
     (if cpc s c = NotCalled
      then Some (s\<lparr>cpc := (cpc s)(c := FastPath), cctx := (cctx s)(c := k),
                   cfn := (cfn s)(c := f)\<rparr>)
      else None)"
| "step1 (Cancel k x) s =
     (if ctx_err s k = None then Some (s\<lparr>ctx_err := (ctx_err s)(k := Some x)\<rparr>) else None)"
| "step1 (Fast c) s =
     (if cpc s c = FastPath
      then Some (if o_done s then ret c (o_val s) None s else goto c LazyInit s)
      else None)"
| "step1 (OnceDo c) s =
     (if cpc s c = LazyInit then Some (goto c Register (once_Do s)) else None)"
| "step1 (RegDone c) s =
     (if cpc s c = Register \<and> o_done s then Some (ret c (o_val s) None s) else None)"
| "step1 (RegCtx c) s =
     (if cpc s c = Register \<and> ctx_err s (cctx s c) \<noteq> None
      then Some (ret c None (ctx_err s (cctx s c)) s) else None)"
| "step1 (RegJoin c) s =
     (if cpc s c = Register \<and> loop s = Select
      then Some (loop_join c (goto c Await s)) else None)"
| "step1 (AwaitDone c) s =
     (if cpc s c = Await \<and> o_done s then Some (ret c (o_val s) None s) else None)"
| "step1 (AwaitErr c) s =
     (if cpc s c = Await
      then (case loop s of
              Send x d \<Rightarrow> if d = c then Some (range_head x (ret c None (Some x) s)) else None
            | _ \<Rightarrow> None)
      else None)"
| "step1 (AwaitCtx c) s =
     (if cpc s c = Await \<and> ctx_err s (cctx s c) \<noteq> None
      then Some (goto c Unregister s) else None)"
| "step1 (UnregDone c) s =
     (if cpc s c = Unregister \<and> o_done s then Some (ret c (o_val s) None s) else None)"
| "step1 (UnregErr c) s =
     (if cpc s c = Unregister
      then (case loop s of
              Send x d \<Rightarrow> if d = c then Some (range_head x (ret c None (Some x) s)) else None
            | _ \<Rightarrow> None)
      else None)"
| "step1 (UnregLeave c) s =
     (if cpc s c = Unregister \<and> loop s = Select
      then Some (loop_leave c (ret c None (ctx_err s (cctx s c)) s)) else None)"
| "step1 (RangeNext c) s =
     (case loop s of
        Range x \<Rightarrow> if c \<in> pend s then Some (s\<lparr>pend := pend s - {c}, loop := Send x c\<rparr>) else None
      | _ \<Rightarrow> None)"
| "step1 (FnStart c) s =
     (if runner_of s c = Some Spawned
      then Some (set_runner c InFn (s\<lparr>invoked := invoked s @ [c]\<rparr>)) else None)"
| "step1 (FnReturn c) s =
     (if runner_of s c = Some InFn
      then (case cfn s c of
              Returns v e \<Rightarrow> Some (set_runner c (Sending e) (s\<lparr>o_val := v\<rparr>))
            | Panics \<Rightarrow> Some (s\<lparr>crashed := True\<rparr>))
      else None)"
| "step1 (LoopRecv c) s =
     (if loop s = Select
      then (case runner_of s c of
              Some (Sending e) \<Rightarrow> Some (loop_completed e (del_runner c s))
            | _ \<Rightarrow> None)
      else None)"

text \<open>
  No function of the source calls \<open>recover\<close>, so a panic of \<open>fn\<close> ends the program:
  after it no goroutine takes a step.
\<close>
definition step :: "event \<Rightarrow> state \<Rightarrow> state option" where
  "step ev s = (if crashed s then None else step1 ev s)"

fun exec :: "event list \<Rightarrow> state \<Rightarrow> state option" where
  "exec [] s = Some s"
| "exec (ev # evs) s = (case step ev s of None \<Rightarrow> None | Some s' \<Rightarrow> exec evs s')"

subsection \<open>Invariants of the reachable states\<close>

fun joined :: "pc \<Rightarrow> bool" where
  "joined Await = True"
| "joined Unregister = True"
| "joined _ = False"

fun past_init :: "pc \<Rightarrow> bool" where
  "past_init Register = True"
| "past_init Await = True"
| "past_init Unregister = True"
| "past_init _ = False"

fun sending_to :: "loop_pc \<Rightarrow> cid \<Rightarrow> bool" where
  "sending_to (Send x d) c = (d = c)"
| "sending_to _ c = False"

fun alive :: "loop_pc \<Rightarrow> bool" where
  "alive Select = True"
| "alive (Range x) = True"
| "alive (Send x d) = True"
| "alive _ = False"

text \<open>The caller an event belongs to (the owner of the runner, for the runner's events).\<close>
fun actor :: "event \<Rightarrow> cid" where
  "actor (Call c k f) = c"
| "actor (Cancel k x) = 0"
| "actor (Fast c) = c"
| "actor (OnceDo c) = c"
| "actor (RegDone c) = c"
| "actor (RegCtx c) = c"
| "actor (RegJoin c) = c"
| "actor (AwaitDone c) = c"
| "actor (AwaitErr c) = c"
| "actor (AwaitCtx c) = c"
| "actor (UnregDone c) = c"
| "actor (UnregErr c) = c"
| "actor (UnregLeave c) = c"
| "actor (RangeNext c) = c"
| "actor (FnStart c) = c"
| "actor (FnReturn c) = c"
| "actor (LoopRecv c) = c"

text \<open>The handle and its coordinator.\<close>
definition inv_loop :: "state \<Rightarrow> bool" where
  "inv_loop s \<longleftrightarrow>
     (o_once s \<longleftrightarrow> loop s \<noteq> NotStarted) \<and>
     (o_done s \<longleftrightarrow> loop s = Exited) \<and>
     loops s = (if o_once s then 1 else 0)"

text \<open>The runners.\<close>
definition inv_run :: "state \<Rightarrow> bool" where
  "inv_run s \<longleftrightarrow>
     length (runners s) \<le> 1 \<and>
     (loop s = Select \<longrightarrow> (busy s \<longleftrightarrow> runners s \<noteq> [])) \<and>
     (loop s \<noteq> Select \<longrightarrow> runners s = []) \<and>
     (\<forall>x. loop s = Range x \<longrightarrow> \<not> busy s) \<and>
     (\<forall>x c. loop s = Send x c \<longrightarrow> \<not> busy s) \<and>
     spawned s = invoked s @ map fst (filter (\<lambda>(k, q). q = Spawned) (runners s)) \<and>
     fst ` set (runners s) \<subseteq> set (spawned s) \<and>
     (\<forall>r e. runners s = [(r, Sending e)] \<longrightarrow> cfn s r = Returns (o_val s) e) \<and>
     (crashed s \<longrightarrow> (\<exists>r. runners s = [(r, InFn)]))"

text \<open>The map \<open>pend\<close>.\<close>
definition inv_idle :: "state \<Rightarrow> bool" where
  "inv_idle s \<longleftrightarrow>
     finite (pend s) \<and>
     (\<forall>x. loop s = Range x \<longrightarrow> pend s \<noteq> {}) \<and>
     (loop s = Select \<longrightarrow> \<not> busy s \<longrightarrow> pend s = {})"

text \<open>One caller: it waits exactly when \<open>loop\<close> holds its channel.\<close>
definition caller_ok :: "state \<Rightarrow> cid \<Rightarrow> bool" where
  "caller_ok s c \<longleftrightarrow>
     (alive (loop s) \<longrightarrow> (joined (cpc s c) \<longleftrightarrow> c \<in> pend s \<or> sending_to (loop s) c)) \<and>
     \<not> (c \<in> pend s \<and> sending_to (loop s) c) \<and>
     (past_init (cpc s c) \<longrightarrow> o_once s) \<and>
     (cpc s c = Unregister \<longrightarrow> ctx_err s (cctx s c) \<noteq> None) \<and>
     (c \<in> set (spawned s) \<longrightarrow> joined (cpc s c) \<or> (\<exists>v e. cpc s c = Returned v e))"

definition inv_callers :: "state \<Rightarrow> bool" where
  "inv_callers s \<longleftrightarrow> (\<forall>c. caller_ok s c)"

text \<open>The pairs that \<open>Do\<close> has returned.\<close>
definition inv_ret :: "state \<Rightarrow> bool" where
  "inv_ret s \<longleftrightarrow>
     (\<forall>c v x. cpc s c = Returned v (Some x) \<longrightarrow> v = None) \<and>
     (\<forall>c v. cpc s c = Returned v None \<longrightarrow> o_done s \<and> v = o_val s)"

definition inv :: "state \<Rightarrow> bool" where
  "inv s \<longleftrightarrow> inv_loop s \<and> inv_run s \<and> inv_idle s \<and> inv_callers s \<and> inv_ret s"

section \<open>Notions and schedules used in the claims\<close>

definition sched1 :: "event list" where
  "sched1 = [Call 1 0 (Returns (Some 7) None), Call 2 0 (Returns (Some 9) None),
             Fast 1, Fast 2, OnceDo 1, OnceDo 2, RegJoin 1]"


definition sched9 :: "event list" where
  "sched9 = [Call 1 0 (Returns (Some 5) (Some 3)), Fast 1, OnceDo 1, RegJoin 1, FnStart 1,
             FnReturn 1, LoopRecv 1, RangeNext 1, AwaitErr 1]"

text \<open>
  A caller hangs when the program keeps running and its call of \<open>Do\<close> never returns,
  whatever the other goroutines do.
\<close>
definition hangs :: "state \<Rightarrow> cid \<Rightarrow> bool" where
  "hangs s c \<longleftrightarrow>
     \<not> crashed s \<and> (\<forall>evs s'. exec evs s = Some s' \<longrightarrow> \<not> crashed s' \<and> joined (cpc s' c))"

text \<open>The live runner is the one of \<open>r\<close>, its action panics and has not done so yet.\<close>
definition doomed :: "cid \<Rightarrow> state \<Rightarrow> bool" where
  "doomed r s \<longleftrightarrow>
     cfn s r = Panics \<and> (runners s = [(r, Spawned)] \<or> runners s = [(r, InFn)])"

text \<open>A caller that has returned since state \<open>s0\<close> has returned its own cancellation error.\<close>
definition only_cancelled :: "state \<Rightarrow> state \<Rightarrow> cid \<Rightarrow> bool" where
  "only_cancelled s0 s c \<longleftrightarrow>
     (case cpc s c of
        Returned w e \<Rightarrow>
          cpc s0 c = Returned w e \<or> w = None \<and> e \<noteq> None \<and> e = ctx_err s (cctx s c)
      | _ \<Rightarrow> True)"

definition sched8 :: "event list" where
  "sched8 = [Call 1 0 Panics, Call 2 1 Panics, Fast 1, Fast 2, OnceDo 1, OnceDo 2, RegJoin 1,
             RegJoin 2, FnStart 1]"

definition never_spawner :: "cid \<Rightarrow> state \<Rightarrow> bool" where
  "never_spawner c s \<longleftrightarrow>
     c \<notin> set (spawned s) \<and> (joined (cpc s c) \<or> (\<exists>v e. cpc s c = Returned v e))"

text \<open>The caller whose join spawned the live runner is the last one that started an attempt.\<close>
definition inv_last :: "state \<Rightarrow> bool" where
  "inv_last s \<longleftrightarrow> (\<forall>r q. runners s = [(r, q)] \<longrightarrow> spawned s \<noteq> [] \<and> last (spawned s) = r)"

text \<open>A caller that has called \<open>Do\<close> with the action \<open>f\<close>.\<close>
definition called_with :: "cid \<Rightarrow> action \<Rightarrow> state \<Rightarrow> bool" where
  "called_with c f s \<longleftrightarrow> cpc s c \<noteq> NotCalled \<and> cfn s c = f"

definition sched10 :: "event list" where
  "sched10 = [Call 1 0 (Returns None (Some 4)), Fast 1, OnceDo 1, RegJoin 1, FnStart 1,
              FnReturn 1, LoopRecv 1, RangeNext 1, AwaitErr 1,
              Call 3 0 (Returns (Some 7) None), Call 4 0 (Returns (Some 9) None),
              Fast 3, Fast 4, OnceDo 3, OnceDo 4]"

definition sched10' :: "event list" where
  "sched10' = [FnStart 3, FnReturn 3, LoopRecv 3, AwaitDone 4]"

definition sched6 :: "event list" where
  "sched6 = [Call 1 0 (Returns None (Some 4)), Fast 1, OnceDo 1, RegJoin 1, Cancel 0 8,
             AwaitCtx 1, FnStart 1, FnReturn 1, LoopRecv 1, RangeNext 1]"

definition sched5 :: "event list" where
  "sched5 = [Call 1 0 (Returns (Some 7) None), Call 2 0 Panics, Call 3 0 Panics, Fast 1, Fast 2,
             Fast 3, OnceDo 1, OnceDo 2, OnceDo 3, RegJoin 1, RegJoin 2, FnStart 1, Cancel 0 8,
             AwaitCtx 1]"

text \<open>
  A waiter of the attempt that failed with \<open>x\<close>: it has got \<open>x\<close>, or it is still blocked
  while \<open>loop\<close> is in the range loop that sends \<open>x\<close> and has its channel still to serve.
\<close>
fun fanning :: "err \<Rightarrow> loop_pc \<Rightarrow> cid set \<Rightarrow> cid \<Rightarrow> bool" where
  "fanning x (Range y) P c = (y = x \<and> c \<in> P)"
| "fanning x (Send y d) P c = (y = x \<and> (c \<in> P \<or> d = c))"
| "fanning x _ P c = False"

definition fan_ok :: "err \<Rightarrow> state \<Rightarrow> cid \<Rightarrow> bool" where
  "fan_ok x s c \<longleftrightarrow>
     cpc s c = Returned None (Some x) \<or> joined (cpc s c) \<and> fanning x (loop s) (pend s) c"

text \<open>The state in which the range loop over \<open>pend\<close> ends.\<close>
definition drained :: "err \<Rightarrow> state \<Rightarrow> state" where
  "drained x s = s\<lparr>loop := Select, pend := {},
                     cpc := (\<lambda>c. if c \<in> pend s then Returned None (Some x) else cpc s c)\<rparr>"

text \<open>The receive that is ready for a blocked waiter.\<close>
definition recv_err :: "state \<Rightarrow> cid \<Rightarrow> event" where
  "recv_err s c = (if cpc s c = Await then AwaitErr c else UnregErr c)"

definition sched3 :: "event list" where
  "sched3 = [Call 1 0 (Returns None (Some 4)), Call 2 0 Panics, Fast 1, Fast 2, OnceDo 1,
             OnceDo 2, RegJoin 1, RegJoin 2, FnStart 1, FnReturn 1]"

definition sched3' :: "event list" where
  "sched3' = [RangeNext 2, AwaitErr 2, RangeNext 1, AwaitErr 1]"

definition sched3'' :: "event list" where
  "sched3'' = [Call 3 0 (Returns (Some 7) None), Fast 3, OnceDo 3, RegJoin 3, FnStart 3]"

section \<open>Proofs\<close>

subsection \<open>The invariants hold in every reachable state\<close>

lemmas defs = ret_def goto_def runner_of_def set_runner_def del_runner_def lazyInit_def
  once_Do_def loop_leave_def loop_join_def range_head_def loop_completed_def

lemmas step_splits = if_splits loop_pc.splits action.splits option.splits runner_pc.splits

lemma joined_past_init [simp]: "joined p \<Longrightarrow> past_init p"
  by (cases p) simp_all

lemma inv_init: "inv init"
  by (simp add: inv_def inv_loop_def inv_run_def inv_idle_def inv_callers_def caller_ok_def
      inv_ret_def init_def)

lemma inv_loop_step1: "inv_loop s \<Longrightarrow> step1 ev s = Some s' \<Longrightarrow> inv_loop s'"
  by (cases ev) (clarsimp simp: inv_loop_def defs split: step_splits)+

lemma inv_idle_step1: "inv_idle s \<Longrightarrow> step1 ev s = Some s' \<Longrightarrow> inv_idle s'"
  by (cases ev) (clarsimp simp: inv_idle_def defs split: step_splits)+

lemma caller_ok_step1:
  assumes "inv_loop s" and "inv_callers s" and "step1 ev s = Some s'"
  shows "caller_ok s' d"
proof -
  from assms(2) have "caller_ok s (actor ev)" and "caller_ok s d"
    by (simp_all add: inv_callers_def)
  with assms(1,3) show ?thesis
    by (cases ev) (clarsimp simp: inv_loop_def caller_ok_def defs split: step_splits; blast?)+
qed

lemma inv_callers_step1:
  "inv_loop s \<Longrightarrow> inv_callers s \<Longrightarrow> step1 ev s = Some s' \<Longrightarrow> inv_callers s'"
  using caller_ok_step1 by (simp add: inv_callers_def)

lemma single_runner: "length xs \<le> 1 \<Longrightarrow> map_of xs c = Some r \<Longrightarrow> xs = [(c, r)]"
  by (cases xs) (auto split: if_splits)

lemma inv_run_runner: "inv_run s \<Longrightarrow> runner_of s c = Some r \<Longrightarrow> runners s = [(c, r)]"
  by (simp add: inv_run_def runner_of_def single_runner)

lemma step1_runner:
  "step1 (FnStart c) s = Some s' \<Longrightarrow> runner_of s c = Some Spawned"
  "step1 (FnReturn c) s = Some s' \<Longrightarrow> runner_of s c = Some InFn"
  "step1 (LoopRecv c) s = Some s' \<Longrightarrow> \<exists>e. runner_of s c = Some (Sending e)"
  by (auto split: if_splits option.splits runner_pc.splits)

lemma inv_run_step1:
  assumes "inv_loop s" and "inv_run s" and "inv_callers s" and "step1 ev s = Some s'"
    and "\<not> crashed s"
  shows "inv_run s'"
proof (cases ev)
  case (Call c k f)
  from assms(3) have "caller_ok s c"
    by (simp add: inv_callers_def)
  with assms Call show ?thesis
    by (clarsimp simp: inv_run_def caller_ok_def split: if_splits; force?)
next
  case (FnStart c)
  with assms have "runners s = [(c, Spawned)]"
    by (blast dest: step1_runner inv_run_runner)
  with assms FnStart show ?thesis
    by (clarsimp simp: inv_run_def defs)
next
  case (FnReturn c)
  with assms have "runners s = [(c, InFn)]"
    by (blast dest: step1_runner inv_run_runner)
  with assms FnReturn show ?thesis
    by (clarsimp simp: inv_run_def defs split: action.splits)
next
  case (LoopRecv c)
  with assms obtain e where "runners s = [(c, Sending e)]"
    by (blast dest: step1_runner inv_run_runner)
  with assms LoopRecv show ?thesis
    by (clarsimp simp: inv_run_def defs split: if_splits option.splits)
qed (use assms in \<open>clarsimp simp: inv_loop_def inv_run_def defs split: step_splits; blast?\<close>)+

lemma inv_ret_step1:
  assumes "inv_loop s" and "inv_run s" and "inv_callers s" and "inv_ret s"
    and "step1 ev s = Some s'"
  shows "inv_ret s'"
proof (cases ev)
  case (FnReturn c)
  with assms have "runners s = [(c, InFn)]"
    by (blast dest: step1_runner inv_run_runner)
  with assms(1,2) have "\<not> o_done s"
    by (auto simp: inv_loop_def inv_run_def)
  with assms(4,5) FnReturn show ?thesis
    by (clarsimp simp: inv_ret_def defs split: if_splits action.splits; blast?)
next
  case (UnregLeave c)
  from assms(3) have "caller_ok s c"
    by (simp add: inv_callers_def)
  with assms(4,5) UnregLeave show ?thesis
    by (clarsimp simp: inv_ret_def caller_ok_def defs split: if_splits; blast?)
qed (use assms(1,4,5) in \<open>clarsimp simp: inv_loop_def inv_ret_def defs split: step_splits; blast?\<close>)+

lemma inv_step: "inv s \<Longrightarrow> step ev s = Some s' \<Longrightarrow> inv s'"
  unfolding inv_def step_def
  by (auto split: if_splits
      intro: inv_loop_step1 inv_run_step1 inv_idle_step1 inv_callers_step1 inv_ret_step1)

lemma inv_exec: "inv s \<Longrightarrow> exec evs s = Some s' \<Longrightarrow> inv s'"
  by (induction evs arbitrary: s) (auto split: option.splits dest: inv_step)

lemma inv_reachable: "exec evs init = Some s \<Longrightarrow> inv s"
  using inv_init inv_exec by blast

subsection \<open>Evaluating schedules\<close>

lemmas run_simps = step_def init_def defs

lemma distinct_spawned_step:
  assumes "inv s" and "distinct (spawned s)" and "step ev s = Some s'"
  shows "distinct (spawned s')"
proof -
  from assms(1) have "caller_ok s (actor ev)"
    by (simp add: inv_def inv_callers_def)
  with assms(2,3) show ?thesis
    by (cases ev) (clarsimp simp: step_def caller_ok_def defs split: step_splits)+
qed

lemma distinct_spawned_exec:
  "inv s \<Longrightarrow> distinct (spawned s) \<Longrightarrow> exec evs s = Some s' \<Longrightarrow> distinct (spawned s')"
proof (induction evs arbitrary: s)
  case Nil
  then show ?case by simp
next
  case (Cons ev evs)
  then show ?case
    by (auto split: option.splits dest: inv_step distinct_spawned_step)
qed

subsection \<open>Continuations\<close>

lemma exec_append:
  "exec (xs @ ys) s = (case exec xs s of None \<Rightarrow> None | Some s1 \<Rightarrow> exec ys s1)"
  by (induction xs arbitrary: s) (auto split: option.splits)

lemma exec_preserves:
  assumes "exec evs s = Some s'" and "P s"
    and "\<And>t ev t'. P t \<Longrightarrow> step ev t = Some t' \<Longrightarrow> P t'"
  shows "P s'"
  using assms(1,2)
proof (induction evs arbitrary: s)
  case Nil
  then show ?case by simp
next
  case (Cons ev evs)
  then show ?case
    by (auto split: option.splits intro: assms(3))
qed

lemma crashed_stuck: "crashed s \<Longrightarrow> exec evs s = Some s' \<Longrightarrow> s' = s"
  by (cases evs) (simp_all add: step_def)

lemma returned_step:
  "cpc s c = Returned v e \<Longrightarrow> step ev s = Some s' \<Longrightarrow> cpc s' c = Returned v e"
  by (cases ev) (clarsimp simp: step_def defs split: step_splits)+

lemma returned_final:
  "exec evs s = Some s' \<Longrightarrow> cpc s c = Returned v e \<Longrightarrow> cpc s' c = Returned v e"
  by (rule exec_preserves [where P = "\<lambda>t. cpc t c = Returned v e"]) (auto intro: returned_step)

subsection \<open>C1: single flight\<close>

text \<open>
  Claim C1.  In every reachable state at most one runner goroutine is alive, so at most
  one call of an action is in progress.  The callers whose \<open>fn\<close> has been called are an
  initial segment of the callers whose join started an attempt, and no caller starts two
  attempts: each attempt calls its action at most once.  A join that finds \<open>busy\<close> set
  spawns no runner and starts no attempt; it only adds the joiner's channel to \<open>pend\<close>.
\<close>
theorem single_flight:
  assumes "exec evs init = Some s"
  shows "length (runners s) \<le> 1 \<and>
         distinct (spawned s) \<and> invoked s = take (length (invoked s)) (spawned s) \<and>
         (\<forall>c s'. busy s \<longrightarrow> step (RegJoin c) s = Some s' \<longrightarrow>
            runners s' = runners s \<and> spawned s' = spawned s \<and> invoked s' = invoked s \<and>
            pend s' = insert c (pend s) \<and> cpc s' c = Await)"
proof -
  from assms have "inv s" by (rule inv_reachable)
  then have r: "inv_run s" by (simp add: inv_def)
  have d: "distinct (spawned s)"
    using distinct_spawned_exec [OF inv_init _ assms] by (simp add: init_def)
  have j: "runners s' = runners s \<and> spawned s' = spawned s \<and> invoked s' = invoked s \<and>
           pend s' = insert c (pend s) \<and> cpc s' c = Await"
    if "busy s" and "step (RegJoin c) s = Some s'" for c s'
    using that by (clarsimp simp: step_def defs split: if_splits)
  from r d j show ?thesis
    by (simp add: inv_run_def)
qed

text \<open>Two callers; the first join starts the attempt, the second finds \<open>busy\<close> set.\<close>
theorem single_flight_witness:
  "\<exists>s s'. exec sched1 init = Some s \<and> busy s \<and> step (RegJoin 2) s = Some s' \<and>
      runners s' = [(1, Spawned)] \<and> spawned s' = [1] \<and> pend s' = {1, 2} \<and>
      cpc s' 2 = Await \<and> length (runners s) \<le> 1"
proof -
  obtain s where s: "exec sched1 init = Some s" "busy s" "runners s = [(1, Spawned)]"
      "spawned s = [1]" "pend s = {1}"
    by (simp add: sched1_def run_simps)
  obtain s' where s': "step (RegJoin 2) s = Some s'"
    using s(1) by (auto simp: sched1_def run_simps)
  from single_flight [OF s(1)] s s' show ?thesis
    by auto
qed

subsection \<open>C7: lazy initialisation happens once\<close>



subsection \<open>C9: an error comes with a nil value\<close>

text \<open>
  Claim C9.  Whenever \<open>Do\<close> has returned a non-nil error, the value it returned is nil,
  whatever value the action returned beside its error; when it has returned a nil error,
  \<open>o.done\<close> is closed and the value is \<open>o.val\<close>.  So a non-nil value is only returned
  with a nil error and after the done signal.
\<close>
theorem error_means_nil_value:
  assumes "exec evs init = Some s" and "cpc s c = Returned v e"
  shows "(e \<noteq> None \<longrightarrow> v = None) \<and> (e = None \<longrightarrow> o_done s \<and> v = o_val s)"
proof -
  from assms(1) have "inv_ret s"
    using inv_reachable by (simp add: inv_def)
  with assms(2) show ?thesis
    by (cases e) (auto simp: inv_ret_def)
qed

text \<open>An action that returns 5 with the error 3: its caller gets nil with the error 3.\<close>
theorem error_means_nil_value_witness:
  "\<exists>s. exec sched9 init = Some s \<and> cfn s 1 = Returns (Some 5) (Some 3) \<and> o_val s = Some 5 \<and>
       cpc s 1 = Returned None (Some 3)"
proof -
  obtain s where s: "exec sched9 init = Some s" "cfn s 1 = Returns (Some 5) (Some 3)"
      "o_val s = Some 5" "\<exists>v. cpc s 1 = Returned v (Some 3)"
    by (simp add: sched9_def run_simps)
  then obtain v where v: "cpc s 1 = Returned v (Some 3)"
    by blast
  from error_means_nil_value [OF s(1) v] have "v = None"
    by simp
  with s v show ?thesis
    by simp
qed

subsection \<open>C8: a panic of the action is not contained\<close>

lemma doomed_cases:
  assumes "inv s" and "doomed r s"
  shows "o_once s \<and> \<not> o_done s \<and> loop s = Select \<and> busy s \<and> cfn s r = Panics \<and>
         cpc s r \<noteq> NotCalled \<and> (runners s = [(r, Spawned)] \<or> runners s = [(r, InFn)])"
proof -
  from assms(1) have il: "inv_loop s" and ir: "inv_run s" and k: "caller_ok s r"
    by (simp_all add: inv_def inv_callers_def)
  from assms(2) have d: "cfn s r = Panics" "runners s = [(r, Spawned)] \<or> runners s = [(r, InFn)]"
    by (simp_all add: doomed_def)
  then have ne: "runners s \<noteq> []" and mem: "r \<in> fst ` set (runners s)"
    by auto
  from ir ne have l: "loop s = Select"
    by (simp add: inv_run_def)
  with ir ne have b: "busy s"
    by (simp add: inv_run_def)
  from il l have o: "o_once s" "\<not> o_done s"
    by (simp_all add: inv_loop_def)
  from ir mem have "r \<in> set (spawned s)"
    unfolding inv_run_def by blast
  with k have "cpc s r \<noteq> NotCalled"
    by (auto simp: caller_ok_def)
  with d l b o show ?thesis
    by simp
qed

lemma doomed_step:
  assumes "inv s" and "doomed r s" and "step ev s = Some s'"
  shows "doomed r s' \<and> spawned s' = spawned s"
  using doomed_cases [OF assms(1,2)] assms(3)
  by (cases ev) (clarsimp simp: doomed_def step_def defs split: step_splits; auto?)+

lemma only_cancelled_step:
  assumes "inv s" and "doomed r s" and "only_cancelled s0 s c" and "step ev s = Some s'"
  shows "only_cancelled s0 s' c"
proof -
  from assms(1) have "cpc s c = Unregister \<longrightarrow> ctx_err s (cctx s c) \<noteq> None"
    by (simp add: inv_def inv_callers_def caller_ok_def)
  with doomed_cases [OF assms(1,2)] assms(3,4) show ?thesis
    by (cases ev)
      (clarsimp simp: only_cancelled_def step_def defs split: step_splits pc.splits; auto?)+
qed

lemma doomed_exec:
  assumes "exec evs' s = Some s'" and "inv s" and "doomed r s" and "only_cancelled s0 s c"
  shows "inv s' \<and> doomed r s' \<and> spawned s' = spawned s \<and> only_cancelled s0 s' c"
  using assms(1)
proof (rule exec_preserves)
  show "inv s \<and> doomed r s \<and> spawned s = spawned s \<and> only_cancelled s0 s c"
    using assms by simp
next
  fix t ev t'
  assume a: "inv t \<and> doomed r t \<and> spawned t = spawned s \<and> only_cancelled s0 t c"
    and st: "step ev t = Some t'"
  from a st have "inv t'"
    by (blast intro: inv_step)
  moreover from a st have "doomed r t' \<and> spawned t' = spawned t"
    using doomed_step [of t r ev t'] by simp
  moreover from a st have "only_cancelled s0 t' c"
    using only_cancelled_step [of t r s0 c ev t'] by simp
  ultimately show "inv t' \<and> doomed r t' \<and> spawned t' = spawned s \<and> only_cancelled s0 t' c"
    using a by simp
qed

lemma doomed_crash:
  assumes "inv s" and "doomed r s" and "\<not> crashed s"
  shows "\<exists>evs' s'. exec evs' s = Some s' \<and> crashed s' \<and> cpc s' = cpc s"
proof -
  from doomed_cases [OF assms(1,2)] have c: "cfn s r = Panics"
      and q: "runners s = [(r, Spawned)] \<or> runners s = [(r, InFn)]"
    by simp_all
  from q show ?thesis
  proof
    assume "runners s = [(r, Spawned)]"
    with c assms(3) have "exec [FnStart r, FnReturn r] s \<noteq> None \<and>
        crashed (the (exec [FnStart r, FnReturn r] s)) \<and>
        cpc (the (exec [FnStart r, FnReturn r] s)) = cpc s"
      by (simp add: step_def defs)
    then show ?thesis
      by (metis option.collapse)
  next
    assume "runners s = [(r, InFn)]"
    with c assms(3) have "exec [FnReturn r] s \<noteq> None \<and>
        crashed (the (exec [FnReturn r] s)) \<and> cpc (the (exec [FnReturn r] s)) = cpc s"
      by (simp add: step_def defs)
    then show ?thesis
      by (metis option.collapse)
  qed
qed

lemma crashed_not_hangs: "exec evs' s = Some s' \<Longrightarrow> crashed s' \<Longrightarrow> \<not> hangs s c"
  by (auto simp: hangs_def)

text \<open>
  Claim C8 as stated fails: it has the waiters and the later callers hang, that is, stay
  blocked in a program that goes on.  Two callers wait for an action that panics; after
  the panic the program is over, neither of the two hangs, and no later call can begin.
\<close>
theorem panic_uncontained_counterexample:
  "exec (sched8 @ [FnReturn 1]) init \<noteq> None \<and>
   crashed (the (exec (sched8 @ [FnReturn 1]) init)) \<and>
   cpc (the (exec (sched8 @ [FnReturn 1]) init)) 1 = Await \<and>
   cpc (the (exec (sched8 @ [FnReturn 1]) init)) 2 = Await \<and>
   \<not> hangs (the (exec (sched8 @ [FnReturn 1]) init)) 1 \<and>
   \<not> hangs (the (exec (sched8 @ [FnReturn 1]) init)) 2 \<and>
   exec (sched8 @ [FnReturn 1, Call 3 0 Panics]) init = None"
  by (simp add: sched8_def hangs_def run_simps)

text \<open>
  Claim C8, amended.  Let the action of the live runner be one that panics.  Nothing
  recovers: in every continuation \<open>o.done\<close> stays open, \<open>loop\<close> stays in its select and
  never receives a result, no new attempt starts, and the only pairs \<open>Do\<close> returns are
  nil with the caller's own cancellation error.  No caller hangs: the panic can always
  happen, it ends the whole program, and after it the state never changes, so that no
  waiter and no later caller ever gets a value or an error.
\<close>
theorem panic_ends_program:
  assumes "exec evs init = Some s" and "cfn s r = Panics"
    and "runner_of s r = Some Spawned \<or> runner_of s r = Some InFn"
  shows "(\<forall>evs' s2. exec evs' s = Some s2 \<longrightarrow>
            \<not> o_done s2 \<and> loop s2 = Select \<and> spawned s2 = spawned s \<and>
            (runner_of s2 r = Some Spawned \<or> runner_of s2 r = Some InFn) \<and>
            (\<forall>c w e. cpc s2 c = Returned w e \<longrightarrow>
               cpc s c = Returned w e \<or> w = None \<and> e \<noteq> None \<and> e = ctx_err s2 (cctx s2 c)) \<and>
            (\<forall>c. \<not> hangs s2 c) \<and>
            (crashed s2 \<longrightarrow> (\<forall>evs'' s3. exec evs'' s2 = Some s3 \<longrightarrow> s3 = s2))) \<and>
         (\<not> crashed s \<longrightarrow> (\<exists>evs' s2. exec evs' s = Some s2 \<and> crashed s2 \<and> cpc s2 = cpc s))"
proof -
  from assms(1) have i: "inv s" by (rule inv_reachable)
  then have ir: "inv_run s" by (simp add: inv_def)
  from assms(3) ir have "runners s = [(r, Spawned)] \<or> runners s = [(r, InFn)]"
    by (auto dest: inv_run_runner)
  with assms(2) have d: "doomed r s"
    by (simp add: doomed_def)
  have a: "\<not> o_done s2 \<and> loop s2 = Select \<and> spawned s2 = spawned s \<and>
           (runner_of s2 r = Some Spawned \<or> runner_of s2 r = Some InFn) \<and>
           (\<forall>c w e. cpc s2 c = Returned w e \<longrightarrow>
              cpc s c = Returned w e \<or> w = None \<and> e \<noteq> None \<and> e = ctx_err s2 (cctx s2 c)) \<and>
           (\<forall>c. \<not> hangs s2 c) \<and>
           (crashed s2 \<longrightarrow> (\<forall>evs'' s3. exec evs'' s2 = Some s3 \<longrightarrow> s3 = s2))"
    if e: "exec evs' s = Some s2" for evs' s2
  proof -
    have k: "inv s2 \<and> doomed r s2 \<and> spawned s2 = spawned s \<and> only_cancelled s s2 c" for c
      using e i d by (rule doomed_exec) (simp add: only_cancelled_def split: pc.splits)
    then have i2: "inv s2" and d2: "doomed r s2" and sp: "spawned s2 = spawned s"
      by simp_all
    note dc = doomed_cases [OF i2 d2]
    from dc have r2: "runner_of s2 r = Some Spawned \<or> runner_of s2 r = Some InFn"
      by (auto simp: runner_of_def)
    have o: "cpc s c = Returned w e \<or> w = None \<and> e \<noteq> None \<and> e = ctx_err s2 (cctx s2 c)"
      if "cpc s2 c = Returned w e" for c w e
      using k [of c] that by (simp add: only_cancelled_def)
    have h: "\<not> hangs s2 c" for c
    proof (cases "crashed s2")
      case True
      then show ?thesis by (simp add: hangs_def)
    next
      case False
      from doomed_crash [OF i2 d2 False] show ?thesis
        by (blast dest: crashed_not_hangs)
    qed
    have st: "s3 = s2" if "crashed s2" and "exec evs'' s2 = Some s3" for evs'' s3
      using that by (rule crashed_stuck)
    from dc sp r2 o h st show ?thesis
      by blast
  qed
  have b: "\<exists>evs' s2. exec evs' s = Some s2 \<and> crashed s2 \<and> cpc s2 = cpc s" if "\<not> crashed s"
    using doomed_crash [OF i d that] .
  from a b show ?thesis
    by blast
qed

text \<open>
  Caller 2 is cancelled and leaves before the panic of the action of caller 1; caller 1
  is still blocked when the program ends.
\<close>
theorem panic_ends_program_witness:
  "\<exists>s s2. exec sched8 init = Some s \<and> cfn s 1 = Panics \<and> runner_of s 1 = Some InFn \<and>
      exec [Cancel 1 9, AwaitCtx 2, UnregLeave 2, FnReturn 1] s = Some s2 \<and> crashed s2 \<and>
      \<not> o_done s2 \<and> cpc s2 1 = Await \<and> cpc s2 2 = Returned None (Some 9) \<and>
      exec [AwaitCtx 1] s2 = None"
proof -
  define s where "s = the (exec sched8 init)"
  define s2 where "s2 = the (exec [Cancel 1 9, AwaitCtx 2, UnregLeave 2, FnReturn 1] s)"
  note ev = s_def s2_def sched8_def run_simps
  have e: "exec sched8 init = Some s" "cfn s 1 = Panics"
      "runner_of s 1 = Some Spawned \<or> runner_of s 1 = Some InFn"
      "exec [Cancel 1 9, AwaitCtx 2, UnregLeave 2, FnReturn 1] s = Some s2"
    by (simp_all add: ev)
  have a: "runner_of s 1 = Some InFn" "crashed s2" "cpc s2 1 = Await"
      "cpc s2 2 = Returned None (Some 9)" "exec [AwaitCtx 1] s2 = None"
    by (simp_all add: ev)
  from panic_ends_program [OF e(1,2,3), THEN conjunct1, rule_format, OF e(4)]
  have "\<not> o_done s2"
    by simp
  with e a show ?thesis
    by blast
qed

subsection \<open>C10: the action of the first joiner runs\<close>

lemma never_spawner_step:
  "never_spawner c s \<Longrightarrow> step ev s = Some s' \<Longrightarrow> never_spawner c s'"
  by (cases ev) (clarsimp simp: never_spawner_def step_def defs split: step_splits; blast?)+

lemma inv_last_step:
  assumes "inv s" and "inv_last s" and "step ev s = Some s'"
  shows "inv_last s'"
proof -
  from assms(1) have "inv_run s"
    by (simp add: inv_def)
  then have "length (runners s) \<le> 1" "loop s = Select \<longrightarrow> \<not> busy s \<longrightarrow> runners s = []"
    by (simp_all add: inv_run_def)
  with assms(2,3) show ?thesis
    by (cases ev; cases "runners s")
      (clarsimp simp: inv_last_def step_def defs split: step_splits)+
qed

lemma inv_last_reachable:
  assumes "exec evs init = Some s"
  shows "inv_last s"
proof -
  from assms have "inv s \<and> inv_last s"
  proof (rule exec_preserves)
    show "inv init \<and> inv_last init"
      by (simp add: inv_init) (simp add: inv_last_def init_def)
  next
    fix t ev t'
    assume "inv t \<and> inv_last t" and "step ev t = Some t'"
    then show "inv t' \<and> inv_last t'"
      by (blast intro: inv_step inv_last_step)
  qed
  then show ?thesis by simp
qed

lemma called_with_step:
  "called_with c f s \<Longrightarrow> step ev s = Some s' \<Longrightarrow> called_with c f s'"
  by (cases ev) (clarsimp simp: called_with_def step_def defs split: step_splits)+

lemma called_with_exec:
  "exec evs s = Some s' \<Longrightarrow> called_with c f s \<Longrightarrow> called_with c f s'"
  by (rule exec_preserves [where P = "called_with c f"]) (auto intro: called_with_step)

text \<open>What line 112 does when the call of the runner of \<open>r\<close> ends.\<close>
lemma fn_return:
  assumes "inv s" and "step (FnReturn r) s = Some s'"
  shows "case cfn s r of
           Returns v e \<Rightarrow> o_val s' = v \<and> runners s' = [(r, Sending e)]
         | Panics \<Rightarrow> crashed s'"
proof -
  from assms(2) have "runner_of s r = Some InFn"
    by (auto simp: step_def split: if_splits)
  with assms(1) have "runners s = [(r, InFn)]"
    by (simp add: inv_def inv_run_runner)
  with assms(2) show ?thesis
    by (auto simp: step_def defs split: if_splits action.splits)
qed

text \<open>
  Claim C10.  A join that finds the coordinator idle spawns the runner of the joiner's
  own \<open>fn\<close>: whenever the call made by that runner ends, \<open>o.val\<close> and the error reported
  to \<open>loop\<close> are what the \<open>fn\<close> passed by this joiner returns.  A join that finds
  \<open>busy\<close> set spawns nothing, and the \<open>fn\<close> of that caller is never called, in no
  continuation.  In every reachable state the runner that calls or returns belongs to
  the caller whose join started the latest attempt, the call is that caller's \<open>fn\<close>, and
  the \<open>fn\<close> a caller has passed never changes.
\<close>
theorem first_joiner_fn_runs:
  assumes "exec evs init = Some s" and "step (RegJoin c) s = Some s1"
  shows "set (invoked s) \<subseteq> set (spawned s) \<and>
         (\<not> busy s \<longrightarrow> runners s1 = [(c, Spawned)] \<and> spawned s1 = spawned s @ [c] \<and>
            (\<forall>evs' s2 s3. exec evs' s1 = Some s2 \<longrightarrow> step (FnReturn c) s2 = Some s3 \<longrightarrow>
               (case cfn s c of
                  Returns v e \<Rightarrow> o_val s3 = v \<and> runners s3 = [(c, Sending e)]
                | Panics \<Rightarrow> crashed s3))) \<and>
         (busy s \<longrightarrow> runners s1 = runners s \<and> spawned s1 = spawned s \<and>
            (\<forall>evs' s2. exec evs' s1 = Some s2 \<longrightarrow>
               c \<notin> set (invoked s2) \<and> step (FnStart c) s2 = None \<and>
               step (FnReturn c) s2 = None)) \<and>
         (\<forall>r s'. step (FnStart r) s = Some s' \<longrightarrow>
            r = last (spawned s) \<and> invoked s' = invoked s @ [r]) \<and>
         (\<forall>r s'. step (FnReturn r) s = Some s' \<longrightarrow>
            r = last (spawned s) \<and>
            (case cfn s r of
               Returns v e \<Rightarrow> o_val s' = v \<and> runners s' = [(r, Sending e)]
             | Panics \<Rightarrow> crashed s')) \<and>
         (\<forall>d evs' s2. cpc s d \<noteq> NotCalled \<longrightarrow> exec evs' s = Some s2 \<longrightarrow> cfn s2 d = cfn s d)"
proof -
  from assms(1) have i: "inv s" by (rule inv_reachable)
  then have r: "inv_run s" and k: "caller_ok s c"
    by (simp_all add: inv_def inv_callers_def)
  from assms(1) have il: "inv_last s" by (rule inv_last_reachable)
  from i assms(2) have i1: "inv s1" by (rule inv_step)
  from assms(2) have g: "cpc s c = Register" "loop s = Select" "\<not> crashed s"
    by (auto simp: step_def split: if_splits)
  from assms(2) have c1: "called_with c (cfn s c) s1"
    by (auto simp: called_with_def step_def defs split: if_splits)
  from r have sub: "set (invoked s) \<subseteq> set (spawned s)"
    by (auto simp: inv_run_def)
  from r g have idle: "runners s = []" if "\<not> busy s"
    using that by (simp add: inv_run_def)
  from assms(2) idle have fresh: "runners s1 = [(c, Spawned)] \<and> spawned s1 = spawned s @ [c]"
    if "\<not> busy s"
    using that by (clarsimp simp: step_def defs split: if_splits)
  have own: "case cfn s c of
               Returns v e \<Rightarrow> o_val s3 = v \<and> runners s3 = [(c, Sending e)]
             | Panics \<Rightarrow> crashed s3"
    if e: "exec evs' s1 = Some s2" and st: "step (FnReturn c) s2 = Some s3" for evs' s2 s3
  proof -
    from i1 e have "inv s2" by (rule inv_exec)
    from fn_return [OF this st] called_with_exec [OF e c1] show ?thesis
      by (simp add: called_with_def)
  qed
  have late: "runners s1 = runners s \<and> spawned s1 = spawned s \<and> c \<notin> set (invoked s2) \<and>
              step (FnStart c) s2 = None \<and> step (FnReturn c) s2 = None"
    if b: "busy s" and e: "exec evs' s1 = Some s2" for evs' s2
  proof -
    from assms(2) b have 1: "runners s1 = runners s" "spawned s1 = spawned s" "cpc s1 c = Await"
      by (auto simp: step_def defs split: if_splits)
    from k g have "c \<notin> set (spawned s)"
      by (auto simp: caller_ok_def)
    with 1 have "never_spawner c s1"
      by (simp add: never_spawner_def)
    with e have n2: "never_spawner c s2"
      by (rule exec_preserves) (rule never_spawner_step)
    from i1 e have "inv s2" by (rule inv_exec)
    then have r2: "inv_run s2" by (simp add: inv_def)
    then have "set (invoked s2) \<subseteq> set (spawned s2)"
        and "fst ` set (runners s2) \<subseteq> set (spawned s2)"
      by (auto simp: inv_run_def)
    with n2 have "c \<notin> set (invoked s2)" and "runner_of s2 c = None"
      by (auto simp: never_spawner_def runner_of_def map_of_eq_None_iff)
    then show ?thesis
      using 1 by (simp add: step_def)
  qed
  have late': "runners s1 = runners s \<and> spawned s1 = spawned s" if "busy s"
    using late [OF that, of "[]" s1] by simp
  have fs: "r = last (spawned s) \<and> invoked s' = invoked s @ [r]"
    if st: "step (FnStart r) s = Some s'" for r s'
  proof -
    from st have q: "runner_of s r = Some Spawned"
      by (auto simp: step_def split: if_splits)
    with r have "runners s = [(r, Spawned)]"
      by (rule inv_run_runner)
    with il st show ?thesis
      by (auto simp: inv_last_def step_def defs split: if_splits)
  qed
  have fr: "r = last (spawned s) \<and>
            (case cfn s r of
               Returns v e \<Rightarrow> o_val s' = v \<and> runners s' = [(r, Sending e)]
             | Panics \<Rightarrow> crashed s')"
    if st: "step (FnReturn r) s = Some s'" for r s'
  proof -
    from st have "runner_of s r = Some InFn"
      by (auto simp: step_def split: if_splits)
    with r have "runners s = [(r, InFn)]"
      by (rule inv_run_runner)
    with il have "r = last (spawned s)"
      by (simp add: inv_last_def)
    with fn_return [OF i st] show ?thesis
      by simp
  qed
  have stab: "cfn s2 d = cfn s d"
    if "cpc s d \<noteq> NotCalled" and e: "exec evs' s = Some s2" for d evs' s2
  proof -
    from that(1) have "called_with d (cfn s d) s"
      by (simp add: called_with_def)
    with e have "called_with d (cfn s d) s2"
      by (rule called_with_exec)
    then show ?thesis
      by (simp add: called_with_def)
  qed
  show ?thesis
  proof (intro conjI allI impI)
    show "set (invoked s) \<subseteq> set (spawned s)" by (rule sub)
  qed (use fresh own late late' fs fr stab in blast)+
qed

text \<open>
  The attempt of caller 1 fails.  Caller 3 then starts an attempt with an action
  returning 7, caller 4 joins it with an action returning 9, and caller 4 gets 7: a
  value its own action does not return.
\<close>
theorem first_joiner_fn_runs_witness:
  "\<exists>s s1 s2 s3 s4. exec sched10 init = Some s \<and> \<not> busy s \<and> spawned s = [1] \<and>
      step (RegJoin 3) s = Some s1 \<and> busy s1 \<and> spawned s1 = [1, 3] \<and>
      step (RegJoin 4) s1 = Some s2 \<and> spawned s2 = [1, 3] \<and> runners s2 = [(3, Spawned)] \<and>
      exec [FnStart 3] s2 = Some s3 \<and> step (FnReturn 3) s3 = Some s4 \<and>
      o_val s4 = Some 7 \<and> runners s4 = [(3, Sending None)] \<and>
      exec sched10' s2 \<noteq> None \<and> invoked (the (exec sched10' s2)) = [1, 3] \<and>
      cfn (the (exec sched10' s2)) 4 = Returns (Some 9) None \<and>
      cpc (the (exec sched10' s2)) 4 = Returned (Some 7) None"
proof -
  define s where "s = the (exec sched10 init)"
  define s1 where "s1 = the (step (RegJoin 3) s)"
  define s2 where "s2 = the (step (RegJoin 4) s1)"
  define s3 where "s3 = the (exec [FnStart 3] s2)"
  define s4 where "s4 = the (step (FnReturn 3) s3)"
  note ev = s_def s1_def s2_def s3_def s4_def sched10_def sched10'_def run_simps
  have e: "exec sched10 init = Some s" "step (RegJoin 3) s = Some s1"
      "step (RegJoin 4) s1 = Some s2" "exec [FnStart 3] s2 = Some s3"
      "step (FnReturn 3) s3 = Some s4"
    by (simp_all add: ev)
  have a: "\<not> busy s" "spawned s = [1]" "busy s1" "cfn s 3 = Returns (Some 7) None"
      "exec sched10' s2 \<noteq> None" "invoked (the (exec sched10' s2)) = [1, 3]"
      "cfn (the (exec sched10' s2)) 4 = Returns (Some 9) None"
      "cpc (the (exec sched10' s2)) 4 = Returned (Some 7) None"
    by (simp_all add: ev)
  have e13: "exec [RegJoin 4, FnStart 3] s1 = Some s3"
    using e(3,4) by simp
  note t = first_joiner_fn_runs [OF e(1,2), THEN conjunct2, THEN conjunct1, rule_format, OF a(1)]
  from t have "spawned s1 = [1, 3]"
    using a(2) by simp
  moreover from t [THEN conjunct2, THEN conjunct2, rule_format, OF e13 e(5)] a(4)
  have "o_val s4 = Some 7" "runners s4 = [(3, Sending None)]"
    by simp_all
  moreover have "exec evs init = Some s1" if "evs = sched10 @ [RegJoin 3]" for evs
    using that e(1,2) by (simp add: exec_append)
  then have "exec (sched10 @ [RegJoin 3]) init = Some s1"
    by simp
  note u = first_joiner_fn_runs [OF this e(3), THEN conjunct2, THEN conjunct2, THEN conjunct1,
      rule_format, OF a(3)]
  from u have "spawned s2 = spawned s1" "runners s2 = runners s1"
    by simp_all
  moreover from t have "runners s1 = [(3, Spawned)]"
    by simp
  ultimately show ?thesis
    using e a by auto
qed

subsection \<open>C6: a delivery in progress beats the leave request\<close>

text \<open>
  Claim C6.  Let a caller be blocked in the last select of \<open>Do\<close> (line 69) in a reachable
  state of a running program.  While \<open>loop\<close> is sending an error to this caller's
  channel, the leave request cannot be taken and the done case is not ready: the caller
  receives that error.  While \<open>loop\<close> is in its select only the leave is possible, and
  the caller returns its context's error; after \<open>loop\<close> has exited only the done case
  is.  While \<open>loop\<close> serves other waiters of the failed attempt none of the three is
  ready and the caller is still in \<open>pend\<close>.  So at most one case is ever ready, the
  first step that takes the caller out of the select makes \<open>Do\<close> return, the returned
  pair never changes afterwards, and within three events the caller can always return.
\<close>
theorem delivery_beats_leave:
  assumes "exec evs init = Some s" and "cpc s c = Unregister" and "\<not> crashed s"
  shows "(\<forall>x. loop s = Send x c \<longrightarrow>
            step (UnregLeave c) s = None \<and> step (UnregDone c) s = None \<and>
            (\<exists>s'. step (UnregErr c) s = Some s' \<and> cpc s' c = Returned None (Some x) \<and>
                  c \<notin> pend s')) \<and>
         (loop s = Select \<longrightarrow>
            step (UnregErr c) s = None \<and> step (UnregDone c) s = None \<and>
            (\<exists>s' y. step (UnregLeave c) s = Some s' \<and> ctx_err s (cctx s c) = Some y \<and>
                    cpc s' c = Returned None (Some y) \<and> c \<notin> pend s')) \<and>
         (loop s = Exited \<longrightarrow>
            step (UnregErr c) s = None \<and> step (UnregLeave c) s = None \<and>
            (\<exists>s'. step (UnregDone c) s = Some s' \<and> cpc s' c = Returned (o_val s) None)) \<and>
         (loop s \<noteq> Select \<and> loop s \<noteq> Exited \<and> \<not> sending_to (loop s) c \<longrightarrow>
            c \<in> pend s \<and> step (UnregErr c) s = None \<and> step (UnregLeave c) s = None \<and>
            step (UnregDone c) s = None) \<and>
         (\<forall>ev s' evs' s''. step ev s = Some s' \<longrightarrow> cpc s' c \<noteq> Unregister \<longrightarrow>
            exec evs' s' = Some s'' \<longrightarrow>
            (\<exists>v e. cpc s' c = Returned v e) \<and> cpc s'' c = cpc s' c) \<and>
         (\<exists>evs' s' v e. length evs' \<le> 3 \<and> exec evs' s = Some s' \<and> cpc s' c = Returned v e)"
proof -
  from assms(1) have i: "inv s" by (rule inv_reachable)
  then have l: "inv_loop s" and k: "caller_ok s c"
    by (simp_all add: inv_def inv_callers_def)
  have a: "step (UnregLeave c) s = None \<and> step (UnregDone c) s = None \<and>
           (\<exists>s'. step (UnregErr c) s = Some s' \<and> cpc s' c = Returned None (Some x) \<and>
                 c \<notin> pend s')"
    if "loop s = Send x c" for x
    using that assms(2,3) l k by (simp add: step_def inv_loop_def caller_ok_def defs)
  from k assms(2) obtain y where y: "ctx_err s (cctx s c) = Some y"
    by (auto simp: caller_ok_def)
  have b: "step (UnregErr c) s = None \<and> step (UnregDone c) s = None \<and>
           (\<exists>s' y. step (UnregLeave c) s = Some s' \<and> ctx_err s (cctx s c) = Some y \<and>
                   cpc s' c = Returned None (Some y) \<and> c \<notin> pend s')"
    if "loop s = Select"
    using that assms(2,3) l y by (simp add: step_def inv_loop_def defs)
  have d: "step (UnregErr c) s = None \<and> step (UnregLeave c) s = None \<and>
           (\<exists>s'. step (UnregDone c) s = Some s' \<and> cpc s' c = Returned (o_val s) None)"
    if "loop s = Exited"
    using that assms(2,3) l by (simp add: step_def inv_loop_def defs)
  have e: "c \<in> pend s \<and> step (UnregErr c) s = None \<and> step (UnregLeave c) s = None \<and>
           step (UnregDone c) s = None"
    if "loop s \<noteq> Select" and "loop s \<noteq> Exited" and "\<not> sending_to (loop s) c"
    using that assms(2,3) l k
    by (cases "loop s") (simp_all add: step_def inv_loop_def caller_ok_def)
  have f: "(\<exists>v e. cpc s' c = Returned v e) \<and> cpc s'' c = cpc s' c"
    if "step ev s = Some s'" and "cpc s' c \<noteq> Unregister" and "exec evs' s' = Some s''"
    for ev s' evs' s''
  proof -
    from that(1,2) assms(2) obtain v e where "cpc s' c = Returned v e"
      by (cases ev) (clarsimp simp: step_def defs split: step_splits)+
    with that(3) show ?thesis
      by (auto dest: returned_final)
  qed
  have g: "\<exists>evs' s' v e. length evs' \<le> 3 \<and> exec evs' s = Some s' \<and> cpc s' c = Returned v e"
  proof (cases "loop s")
    case NotStarted
    with l k assms(2) show ?thesis
      by (simp add: inv_loop_def caller_ok_def)
  next
    case Select
    with b obtain s' y where "step (UnregLeave c) s = Some s'" "cpc s' c = Returned None (Some y)"
      by blast
    then have "length [UnregLeave c] \<le> 3 \<and> exec [UnregLeave c] s = Some s' \<and>
               cpc s' c = Returned None (Some y)"
      by simp
    then show ?thesis by blast
  next
    case (Range x)
    with k assms(2) have "c \<in> pend s"
      by (simp add: caller_ok_def)
    with Range assms(2,3) have "exec [RangeNext c, UnregErr c] s \<noteq> None \<and>
        cpc (the (exec [RangeNext c, UnregErr c] s)) c = Returned None (Some x)"
      by (simp add: step_def defs)
    then have "length [RangeNext c, UnregErr c] \<le> 3 \<and>
        (\<exists>s'. exec [RangeNext c, UnregErr c] s = Some s' \<and> cpc s' c = Returned None (Some x))"
      by auto
    then show ?thesis by blast
  next
    case (Send x d)
    show ?thesis
    proof (cases "d = c")
      case True
      with Send a obtain s' where "step (UnregErr c) s = Some s'"
          "cpc s' c = Returned None (Some x)"
        by blast
      then have "length [UnregErr c] \<le> 3 \<and> exec [UnregErr c] s = Some s' \<and>
                 cpc s' c = Returned None (Some x)"
        by simp
      then show ?thesis by blast
    next
      case False
      from i have kd: "caller_ok s d"
        by (simp add: inv_def inv_callers_def)
      with Send have jd: "joined (cpc s d)"
        by (simp add: caller_ok_def)
      from k Send False assms(2) have cp: "c \<in> pend s"
        by (simp add: caller_ok_def)
      define dv where "dv = (if cpc s d = Await then AwaitErr d else UnregErr d)"
      from jd have "cpc s d = Await \<or> cpc s d = Unregister"
        by (cases "cpc s d") simp_all
      with Send False cp assms(2,3) have "exec [dv, RangeNext c, UnregErr c] s \<noteq> None \<and>
          cpc (the (exec [dv, RangeNext c, UnregErr c] s)) c = Returned None (Some x)"
        by (auto simp: dv_def step_def defs)
      then have "length [dv, RangeNext c, UnregErr c] \<le> 3 \<and>
          (\<exists>s'. exec [dv, RangeNext c, UnregErr c] s = Some s' \<and>
                cpc s' c = Returned None (Some x))"
        by auto
      then show ?thesis by blast
    qed
  next
    case Exited
    with d obtain s' where "step (UnregDone c) s = Some s'" "cpc s' c = Returned (o_val s) None"
      by blast
    then have "length [UnregDone c] \<le> 3 \<and> exec [UnregDone c] s = Some s' \<and>
               cpc s' c = Returned (o_val s) None"
      by simp
    then show ?thesis by blast
  qed
  from a b d e f g show ?thesis
    by blast
qed

text \<open>A cancelled caller whose attempt fails before its leave request was taken.\<close>
theorem delivery_beats_leave_witness:
  "\<exists>s s'. exec sched6 init = Some s \<and> cpc s 1 = Unregister \<and> loop s = Send 4 1 \<and>
      step (UnregLeave 1) s = None \<and> step (UnregErr 1) s = Some s' \<and>
      cpc s' 1 = Returned None (Some 4)"
proof -
  obtain s where s: "exec sched6 init = Some s" "cpc s 1 = Unregister" "loop s = Send 4 1"
      "\<not> crashed s"
    by (simp add: sched6_def run_simps)
  from delivery_beats_leave [OF s(1,2,4)] s(3) s show ?thesis
    by auto
qed

subsection \<open>C5: cancellation is local\<close>

lemma runner_completes:
  assumes "inv s" and "\<not> crashed s" and "runners s = [(r, q)]" and "cfn s r = Returns v None"
  shows "\<exists>evs' s'. exec evs' s = Some s' \<and> o_done s' \<and> o_val s' = v \<and> \<not> crashed s' \<and>
           cpc s' = cpc s"
proof -
  from assms(1,3) have l: "loop s = Select" and r: "inv_run s"
    by (auto simp: inv_def inv_run_def)
  show ?thesis
  proof (cases q)
    case Spawned
    with assms l have "exec [FnStart r, FnReturn r, LoopRecv r] s \<noteq> None"
      by (simp add: step_def defs)
    then obtain s' where "exec [FnStart r, FnReturn r, LoopRecv r] s = Some s'"
      by blast
    moreover from this Spawned assms l
    have "o_done s' \<and> o_val s' = v \<and> \<not> crashed s' \<and> cpc s' = cpc s"
      by (auto simp: step_def defs)
    ultimately show ?thesis by blast
  next
    case InFn
    with assms l have "exec [FnReturn r, LoopRecv r] s \<noteq> None"
      by (simp add: step_def defs)
    then obtain s' where "exec [FnReturn r, LoopRecv r] s = Some s'"
      by blast
    moreover from this InFn assms l
    have "o_done s' \<and> o_val s' = v \<and> \<not> crashed s' \<and> cpc s' = cpc s"
      by (auto simp: step_def defs)
    ultimately show ?thesis by blast
  next
    case (Sending e)
    with r assms(3,4) have e: "e = None" and v: "o_val s = v"
      by (auto simp: inv_run_def)
    with Sending assms l have "exec [LoopRecv r] s \<noteq> None"
      by (simp add: step_def defs)
    then obtain s' where "exec [LoopRecv r] s = Some s'"
      by blast
    moreover from this Sending e v assms l
    have "o_done s' \<and> o_val s' = v \<and> \<not> crashed s' \<and> cpc s' = cpc s"
      by (auto simp: step_def defs)
    ultimately show ?thesis by blast
  qed
qed

text \<open>
  Claim C5.  Cancelling a context changes that context only.  A caller that sees its
  context cancelled changes nothing but its own control point; when it leaves, its own
  channel is removed from \<open>pend\<close> and \<open>Do\<close> returns nil and its context's error.
  Runners, \<open>busy\<close>, the other waiters and the other entries of \<open>pend\<close> stay as they
  are.  Whoever is still waiting or not, a live runner whose action returns a nil error
  can finish: \<open>o.done\<close> gets closed with the action's value in \<open>o.val\<close>, and every later
  call of \<open>Do\<close> returns that value.
\<close>
theorem cancellation_is_local:
  assumes "exec evs init = Some s"
  shows "(\<forall>k x s'. step (Cancel k x) s = Some s' \<longrightarrow>
            s' = s\<lparr>ctx_err := (ctx_err s)(k := Some x)\<rparr>) \<and>
         (\<forall>c s'. step (AwaitCtx c) s = Some s' \<longrightarrow>
            s' = s\<lparr>cpc := (cpc s)(c := Unregister)\<rparr>) \<and>
         (\<forall>c s'. step (RegCtx c) s = Some s' \<longrightarrow>
            (\<exists>y. ctx_err s (cctx s c) = Some y \<and>
                 s' = s\<lparr>cpc := (cpc s)(c := Returned None (Some y))\<rparr>)) \<and>
         (\<forall>c s'. step (UnregLeave c) s = Some s' \<longrightarrow>
            (\<exists>y. ctx_err s (cctx s c) = Some y \<and>
                 s' = s\<lparr>cpc := (cpc s)(c := Returned None (Some y)), pend := pend s - {c}\<rparr>)) \<and>
         (\<forall>r q v. \<not> crashed s \<longrightarrow> runners s = [(r, q)] \<longrightarrow> cfn s r = Returns v None \<longrightarrow>
            (\<exists>evs' s'. exec evs' s = Some s' \<and> o_done s' \<and> o_val s' = v \<and> cpc s' = cpc s \<and>
               (\<forall>c k f. cpc s' c = NotCalled \<longrightarrow>
                  (\<exists>s''. exec [Call c k f, Fast c] s' = Some s'' \<and>
                         cpc s'' c = Returned v None))))"
proof -
  from assms have i: "inv s" by (rule inv_reachable)
  have 1: "s' = s\<lparr>ctx_err := (ctx_err s)(k := Some x)\<rparr>"
    if "step (Cancel k x) s = Some s'" for k x s'
    using that by (auto simp: step_def split: if_splits)
  have 2: "s' = s\<lparr>cpc := (cpc s)(c := Unregister)\<rparr>"
    if "step (AwaitCtx c) s = Some s'" for c s'
    using that by (auto simp: step_def defs split: if_splits)
  have 3: "\<exists>y. ctx_err s (cctx s c) = Some y \<and>
             s' = s\<lparr>cpc := (cpc s)(c := Returned None (Some y))\<rparr>"
    if "step (RegCtx c) s = Some s'" for c s'
    using that by (auto simp: step_def defs split: if_splits)
  have 4: "\<exists>y. ctx_err s (cctx s c) = Some y \<and>
             s' = s\<lparr>cpc := (cpc s)(c := Returned None (Some y)), pend := pend s - {c}\<rparr>"
    if "step (UnregLeave c) s = Some s'" for c s'
  proof -
    from i have "caller_ok s c"
      by (simp add: inv_def inv_callers_def)
    with that show ?thesis
      by (auto simp: step_def caller_ok_def defs split: if_splits)
  qed
  have 5: "\<exists>evs' s'. exec evs' s = Some s' \<and> o_done s' \<and> o_val s' = v \<and> cpc s' = cpc s \<and>
             (\<forall>c k f. cpc s' c = NotCalled \<longrightarrow>
                (\<exists>s''. exec [Call c k f, Fast c] s' = Some s'' \<and> cpc s'' c = Returned v None))"
    if "\<not> crashed s" and "runners s = [(r, q)]" and "cfn s r = Returns v None" for r q v
  proof -
    from runner_completes [OF i that] obtain evs' s' where
      s': "exec evs' s = Some s'" "o_done s'" "o_val s' = v" "\<not> crashed s'" "cpc s' = cpc s"
      by blast
    have "\<exists>s''. exec [Call c k f, Fast c] s' = Some s'' \<and> cpc s'' c = Returned v None"
      if "cpc s' c = NotCalled" for c k f
      using that s'(2,3,4) by (simp add: step_def defs)
    with s' show ?thesis
      by blast
  qed
  from 1 2 3 4 5 show ?thesis
    by blast
qed

text \<open>
  Caller 1 starts the attempt, is cancelled and leaves; caller 2 waits on; the action
  then succeeds, and callers 2 and 4 get its value.
\<close>
theorem cancellation_is_local_witness:
  "\<exists>s s1 s2 s3 s4 s5 s6.
      exec sched5 init = Some s \<and> runners s = [(1, InFn)] \<and> pend s = {1, 2} \<and>
      step (Cancel 1 9) s = Some s1 \<and> runners s1 = runners s \<and> pend s1 = pend s \<and>
      step (AwaitCtx 2) s = Some s2 \<and> runners s2 = runners s \<and> pend s2 = pend s \<and>
      step (RegCtx 3) s = Some s3 \<and> runners s3 = runners s \<and> pend s3 = pend s \<and>
      cpc s3 3 = Returned None (Some 8) \<and>
      step (UnregLeave 1) s = Some s4 \<and> runners s4 = runners s \<and> pend s4 = {2} \<and>
      cpc s4 1 = Returned None (Some 8) \<and> cpc s4 2 = Await \<and>
      exec [FnReturn 1, LoopRecv 1] s4 = Some s5 \<and> o_done s5 \<and> o_val s5 = Some 7 \<and>
      exec [Call 4 1 Panics, Fast 4, AwaitDone 2] s5 = Some s6 \<and>
      cpc s6 4 = Returned (Some 7) None \<and> cpc s6 2 = Returned (Some 7) None \<and>
      invoked s6 = [1]"
proof -
  define s where "s = the (exec sched5 init)"
  define s1 where "s1 = the (step (Cancel 1 9) s)"
  define s2 where "s2 = the (step (AwaitCtx 2) s)"
  define s3 where "s3 = the (step (RegCtx 3) s)"
  define s4 where "s4 = the (step (UnregLeave 1) s)"
  define s5 where "s5 = the (exec [FnReturn 1, LoopRecv 1] s4)"
  define s6 where "s6 = the (exec [Call 4 1 Panics, Fast 4, AwaitDone 2] s5)"
  note ev = s_def s1_def s2_def s3_def s4_def s5_def s6_def sched5_def run_simps
  have e: "exec sched5 init = Some s"
    by (simp add: ev)
  have st: "step (Cancel 1 9) s = Some s1" "step (AwaitCtx 2) s = Some s2"
      "step (RegCtx 3) s = Some s3" "step (UnregLeave 1) s = Some s4"
    by (simp_all add: ev)
  from cancellation_is_local [OF e] st
  have "s1 = s\<lparr>ctx_err := (ctx_err s)(1 := Some 9)\<rparr>" "s2 = s\<lparr>cpc := (cpc s)(2 := Unregister)\<rparr>"
    and "\<exists>y. s3 = s\<lparr>cpc := (cpc s)(3 := Returned None (Some y))\<rparr>"
    and "\<exists>y. s4 = s\<lparr>cpc := (cpc s)(1 := Returned None (Some y)), pend := pend s - {1}\<rparr>"
    by blast+
  then have fr: "runners s1 = runners s" "pend s1 = pend s" "runners s2 = runners s"
      "pend s2 = pend s" "runners s3 = runners s" "pend s3 = pend s" "runners s4 = runners s"
    by auto
  have a: "runners s = [(1, InFn)]" "pend s = {1, 2}" "cpc s3 3 = Returned None (Some 8)"
      "pend s4 = {2}" "cpc s4 1 = Returned None (Some 8)" "cpc s4 2 = Await"
    by (auto simp: ev)
  have b: "exec [FnReturn 1, LoopRecv 1] s4 = Some s5" "o_done s5" "o_val s5 = Some 7"
    by (simp_all add: ev)
  have c: "exec [Call 4 1 Panics, Fast 4, AwaitDone 2] s5 = Some s6"
      "cpc s6 4 = Returned (Some 7) None" "cpc s6 2 = Returned (Some 7) None" "invoked s6 = [1]"
    by (simp_all add: ev)
  from e st fr a b c show ?thesis
    by blast
qed

subsection \<open>C3: a failure is sent to every waiter, then the coordinator is idle again\<close>

lemma fan_ok_step:
  assumes "inv_loop s" and "fan_ok x s c" and "step ev s = Some s'"
  shows "fan_ok x s' c"
  using assms
  by (cases ev) (clarsimp simp: inv_loop_def fan_ok_def step_def defs split: step_splits; auto?)+

lemma fan_ok_exec:
  assumes "exec evs s = Some s'" and "inv s" and "fan_ok x s c"
  shows "fan_ok x s' c"
proof -
  from assms(1) have "inv s' \<and> fan_ok x s' c"
  proof (rule exec_preserves)
    show "inv s \<and> fan_ok x s c"
      using assms by simp
  next
    fix t ev t'
    assume a: "inv t \<and> fan_ok x t c" and st: "step ev t = Some t'"
    from a have "inv_loop t"
      by (simp add: inv_def)
    with a st show "inv t' \<and> fan_ok x t' c"
      by (blast intro: inv_step fan_ok_step)
  qed
  then show ?thesis by simp
qed

lemma drain_one:
  assumes "inv s" and "\<not> crashed s" and "loop s = Range x" and "c \<in> pend s"
  shows "exec [RangeNext c, recv_err s c] s =
         Some (s\<lparr>pend := pend s - {c}, cpc := (cpc s)(c := Returned None (Some x)),
                 loop := (if pend s - {c} = {} then Select else Range x)\<rparr>)"
proof -
  from assms(1) have "caller_ok s c"
    by (simp add: inv_def inv_callers_def)
  with assms(3,4) have "joined (cpc s c)"
    by (simp add: caller_ok_def)
  then have "cpc s c = Await \<or> cpc s c = Unregister"
    by (cases "cpc s c") simp_all
  with assms(2,3,4) show ?thesis
    by (auto simp: recv_err_def step_def defs)
qed

lemma drain_all:
  assumes "inv s" and "\<not> crashed s" and "loop s = Range x"
  shows "\<exists>evs'. exec evs' s = Some (drained x s)"
  using assms
proof (induction "card (pend s)" arbitrary: s)
  case 0
  then have "finite (pend s)" and "pend s \<noteq> {}"
    by (auto simp: inv_def inv_idle_def)
  with 0 show ?case by simp
next
  case (Suc n)
  from Suc.prems have fin: "finite (pend s)" and "pend s \<noteq> {}"
    by (auto simp: inv_def inv_idle_def)
  then obtain c where c: "c \<in> pend s"
    by blast
  define t where "t = s\<lparr>pend := pend s - {c}, cpc := (cpc s)(c := Returned None (Some x)),
                       loop := (if pend s - {c} = {} then Select else Range x)\<rparr>"
  from drain_one [OF Suc.prems c] have one: "exec [RangeNext c, recv_err s c] s = Some t"
    by (simp add: t_def)
  show ?case
  proof (cases "pend s - {c} = {}")
    case True
    with c have "pend s = {c}"
      by blast
    then have "t = drained x s"
      by (auto simp: t_def drained_def fun_eq_iff)
    with one show ?thesis
      by blast
  next
    case False
    from one Suc.prems(1) have "inv t"
      by (rule inv_exec [rotated])
    moreover from Suc.prems(2) have "\<not> crashed t"
      by (simp add: t_def)
    moreover from False have "loop t = Range x"
      by (simp add: t_def)
    moreover from Suc.hyps(2) fin c have "n = card (pend t)"
      by (simp add: t_def)
    ultimately obtain evs' where "exec evs' t = Some (drained x t)"
      using Suc.hyps(1) by blast
    moreover from c have "drained x t = drained x s"
      by (auto simp: t_def drained_def fun_eq_iff)
    ultimately have "exec ([RangeNext c, recv_err s c] @ evs') s = Some (drained x s)"
      using one by (simp only: exec_append option.case)
    then show ?thesis
      by blast
  qed
qed

lemma drain_any:
  assumes "inv s" and "\<not> crashed s" and "loop s = (if pend s = {} then Select else Range x)"
  shows "\<exists>evs'. exec evs' s = Some (drained x s)"
proof (cases "pend s = {}")
  case True
  with assms(3) have "drained x s = s"
    by (simp add: drained_def)
  then have "exec [] s = Some (drained x s)"
    by simp
  then show ?thesis
    by blast
next
  case False
  with assms show ?thesis
    by (simp add: drain_all)
qed

text \<open>
  Claim C3.  Let \<open>loop\<close> receive a non-nil error \<open>x\<close> from its runner.  Then \<open>busy\<close> is
  unset, no runner is left, and \<open>loop\<close> is at the head of the range loop over the
  waiters in \<open>pend\<close> (or back in its select when there is none).  Whatever happens next,
  each of those waiters either has returned nil with the error \<open>x\<close> or is still blocked
  with \<open>loop\<close> about to send \<open>x\<close> to it; when \<open>loop\<close> is back in its select all of them
  have returned nil with \<open>x\<close>.  The range loop can always run to its end; then \<open>pend\<close>
  is empty and \<open>busy\<close> unset, and the join of any later call of \<open>Do\<close> spawns a runner
  that calls that caller's action: the action is invoked again.
\<close>
theorem failure_fans_out_then_resets:
  assumes "exec evs init = Some s" and "runner_of s r = Some (Sending (Some x))"
    and "step (LoopRecv r) s = Some s1"
  shows "\<not> busy s1 \<and> runners s1 = [] \<and> pend s1 = pend s \<and>
         loop s1 = (if pend s = {} then Select else Range x) \<and>
         (\<forall>evs' s2. exec evs' s1 = Some s2 \<longrightarrow>
            (\<forall>c \<in> pend s. fan_ok x s2 c) \<and>
            (loop s2 = Select \<longrightarrow> (\<forall>c \<in> pend s. cpc s2 c = Returned None (Some x)))) \<and>
         (\<exists>evs' s2. exec evs' s1 = Some s2 \<and> loop s2 = Select \<and> pend s2 = {} \<and> \<not> busy s2 \<and>
            (\<forall>c \<in> pend s. cpc s2 c = Returned None (Some x)) \<and>
            (\<forall>c k f. cpc s2 c = NotCalled \<longrightarrow>
               (\<exists>s3. exec [Call c k f, Fast c, OnceDo c, RegJoin c, FnStart c] s2 = Some s3 \<and>
                     runners s3 = [(c, InFn)] \<and> invoked s3 = invoked s @ [c] \<and>
                     pend s3 = {c})))"
proof -
  from assms(1) have i: "inv s" by (rule inv_reachable)
  from i assms(3) have i1: "inv s1" by (rule inv_step)
  from assms(3) have g: "loop s = Select" "\<not> crashed s"
    by (auto simp: step_def split: if_splits)
  from i assms(2) have rs: "runners s = [(r, Sending (Some x))]"
    by (simp add: inv_def inv_run_runner)
  with assms(3) g have s1: "s1 = range_head x (s\<lparr>runners := [], busy := False\<rparr>)"
    by (simp add: step_def defs)
  then have a: "\<not> busy s1" "runners s1 = []" "pend s1 = pend s" "\<not> crashed s1"
      "loop s1 = (if pend s = {} then Select else Range x)" "invoked s1 = invoked s"
      "cpc s1 = cpc s"
    using g by (simp_all add: range_head_def)
  from i g rs have od: "o_once s1" "\<not> o_done s1"
    using s1 by (auto simp: inv_def inv_loop_def range_head_def)
  have w: "joined (cpc s c)" if "c \<in> pend s" for c
  proof -
    from i have "caller_ok s c" by (simp add: inv_def inv_callers_def)
    with that g show ?thesis by (simp add: caller_ok_def)
  qed
  have f1: "fan_ok x s1 c" if "c \<in> pend s" for c
    using that w [OF that] a by (auto simp: fan_ok_def)
  have b: "(\<forall>c \<in> pend s. fan_ok x s2 c) \<and>
           (loop s2 = Select \<longrightarrow> (\<forall>c \<in> pend s. cpc s2 c = Returned None (Some x)))"
    if e: "exec evs' s1 = Some s2" for evs' s2
  proof -
    have "fan_ok x s2 c" if "c \<in> pend s" for c
      using e i1 f1 [OF that] by (rule fan_ok_exec)
    then show ?thesis
      by (auto simp: fan_ok_def)
  qed
  from drain_any [OF i1 a(4)] a obtain evs' where d: "exec evs' s1 = Some (drained x s1)"
    by auto
  have c: "\<exists>s3. exec [Call c k f, Fast c, OnceDo c, RegJoin c, FnStart c] (drained x s1) = Some s3 \<and>
             runners s3 = [(c, InFn)] \<and> invoked s3 = invoked s @ [c] \<and> pend s3 = {c}"
    if "cpc (drained x s1) c = NotCalled" for c k f
    using that a od by (simp add: drained_def step_def defs)
  have "loop (drained x s1) = Select \<and> pend (drained x s1) = {} \<and> \<not> busy (drained x s1) \<and>
        (\<forall>c \<in> pend s. cpc (drained x s1) c = Returned None (Some x))"
    using a by (simp add: drained_def)
  with d c have "\<exists>evs' s2. exec evs' s1 = Some s2 \<and> loop s2 = Select \<and> pend s2 = {} \<and>
      \<not> busy s2 \<and> (\<forall>c \<in> pend s. cpc s2 c = Returned None (Some x)) \<and>
      (\<forall>c k f. cpc s2 c = NotCalled \<longrightarrow>
         (\<exists>s3. exec [Call c k f, Fast c, OnceDo c, RegJoin c, FnStart c] s2 = Some s3 \<and>
               runners s3 = [(c, InFn)] \<and> invoked s3 = invoked s @ [c] \<and> pend s3 = {c}))"
    by blast
  with a b show ?thesis
    by blast
qed

text \<open>
  Two waiters on an action that fails with the error 4: both get it, and the action of a
  third call is invoked afterwards.
\<close>
theorem failure_fans_out_then_resets_witness:
  "\<exists>s s1 s2 s3. exec sched3 init = Some s \<and> runner_of s 1 = Some (Sending (Some 4)) \<and>
      pend s = {1, 2} \<and> step (LoopRecv 1) s = Some s1 \<and> \<not> busy s1 \<and> loop s1 = Range 4 \<and>
      exec sched3' s1 = Some s2 \<and> loop s2 = Select \<and> pend s2 = {} \<and>
      cpc s2 1 = Returned None (Some 4) \<and> cpc s2 2 = Returned None (Some 4) \<and>
      exec sched3'' s2 = Some s3 \<and> invoked s3 = [1, 3] \<and> runners s3 = [(3, InFn)]"
proof -
  define s where "s = the (exec sched3 init)"
  define s1 where "s1 = the (step (LoopRecv 1) s)"
  define s2 where "s2 = the (exec sched3' s1)"
  define s3 where "s3 = the (exec sched3'' s2)"
  note ev = s_def s1_def s2_def s3_def sched3_def sched3'_def sched3''_def run_simps
  have e: "exec sched3 init = Some s" "runner_of s 1 = Some (Sending (Some 4))"
      "step (LoopRecv 1) s = Some s1" "exec sched3' s1 = Some s2" "exec sched3'' s2 = Some s3"
    by (simp_all add: ev)
  have p: "pend s = {1, 2}" "pend s2 = {}"
    by (auto simp: ev)
  have l: "loop s2 = Select" "invoked s3 = [1, 3]" "runners s3 = [(3, InFn)]"
    by (simp_all add: ev)
  note t = failure_fans_out_then_resets [OF e(1,2,3)]
  from t p(1) have "\<not> busy s1" "loop s1 = Range 4"
    by simp_all
  moreover from t [THEN conjunct2, THEN conjunct2, THEN conjunct2, THEN conjunct2, THEN conjunct1]
    e(4) l(1)
  have "\<forall>c \<in> pend s. cpc s2 c = Returned None (Some 4)"
    by blast
  with p(1) have "cpc s2 1 = Returned None (Some 4)" "cpc s2 2 = Returned None (Some 4)"
    by simp_all
  ultimately show ?thesis
    using e p l by blast
qed

end
